theory Spec2Isabelle
  imports Main "HOL-Library.Word" "HOL-Library.AList"
begin

section \<open>The JSON-RPC client of jrpc2/client.go\<close>

text \<open>
  The client is a concurrent program: goroutines that run \<open>Request\<close>, the writer loop
  \<open>setupWriteQueue\<close>, the reader loop \<open>readQueue\<close> (on the goroutine that called
  \<open>StartUp\<close>) and one \<open>processResponse\<close> goroutine per scanned message. It is embedded as
  an interleaving transition system. A \<open>world\<close> holds the \<open>Client\<close> struct, the channels
  it refers to, the goroutines with their program counters, the bytes written to the
  output files, the log and a clock. One step of a goroutine is one access to shared
  memory or one channel operation, with the goroutine-local computation before it.
  \<open>Shutdown\<close> and the first two statements of \<open>StartUp\<close> are taken as one step each.
  An unrecovered panic ends the whole program, as in Go.

  The types \<open>Request\<close>, \<open>RawResponse\<close>, \<open>Id\<close> and \<open>Method\<close> and the JSON library are
  not part of client.go. The records below carry the fields client.go reads, and the
  library functions are the fields of \<open>ext\<close>, a parameter of every step.
\<close>

subsection \<open>Data\<close>

type_synonym Method = string

type_synonym chan = nat

record Request =
  req_id :: "64 word"
  req_method :: Method

text \<open>\<open>resp_Id\<close> is \<open>None\<close> for a nil \<open>Id\<close> and otherwise holds \<open>Id.Val()\<close>;
  \<open>resp_Error\<close> is \<open>None\<close> for a nil \<open>Error\<close>.\<close>

record RawResponse =
  resp_Id :: "string option"
  resp_Raw :: string
  resp_Error :: "string option"

text \<open>The four error values that \<open>Request\<close> can return: the three \<open>fmt.Errorf\<close>
  messages of client.go, \<open>rawResp.Error.ToErr()\<close> and a failure of the final
  \<open>json.Unmarshal\<close>.\<close>

datatype error =
    ClientIsShutdown
  | PipeClosed
  | RequestTimedOut
  | RpcError string
  | DecodeError string

datatype logline =
    LogMarshal string
  | LogParse string
  | LogNoId
  | LogNoChannel string

text \<open>
  \<open>Val\<close>: \<open>NewIdAsInt(val).Val()\<close>.
  \<open>Marshal\<close>: \<open>json.Marshal(request)\<close>, \<open>Inl\<close> the error.
  \<open>Unmarshal\<close>: \<open>json.Unmarshal(msg, &rawResp)\<close> for a nil \<open>*RawResponse\<close>:
  \<open>Inl\<close> the error, \<open>Inr None\<close> when the pointer stays nil (the JSON text
  \<open>null\<close>), \<open>Inr (Some r)\<close> otherwise.
  \<open>Decode\<close>: \<open>json.Unmarshal(rawResp.Raw, resp)\<close>, the error if any.
\<close>

record ext =
  Val :: "64 word \<Rightarrow> string"
  Marshal :: "Request \<Rightarrow> string + string"
  Unmarshal :: "string \<Rightarrow> string + RawResponse option"
  Decode :: "string \<Rightarrow> string option"

text \<open>The struct \<open>Client\<close>. A channel is an address; \<open>pendingReq\<close> is the Go map as
  an association list; \<open>timeout\<close> is a \<open>time.Duration\<close>, an int64.\<close>

record Client =
  requestQueue :: chan
  pendingReq :: "(string \<times> chan) list"
  requestCounter :: "64 word"
  shutdown :: bool
  timeout :: "64 word"

text \<open>A reply channel \<open>make(chan *RawResponse, 1)\<close>: its buffer and whether it is
  closed. A request queue \<open>make(chan *Request)\<close> has no buffer.\<close>

record replychan =
  buf :: "RawResponse list"
  closed :: bool

datatype req_pc =
    ReqCheck Method
  | ReqNextId Method
  | ReqRegister "64 word" Method
  | ReqQueue Request chan
  | ReqSend chan Request chan
  | ReqTimer Request chan
  | ReqSelect Request chan int
  | ReqTimeout Request
  | ReqReturn "error option"

datatype wr_pc =
    WrInit
  | WrRecv chan
  | WrWrite chan Request
  | WrDone

datatype rd_pc =
    RdScan "string list"
  | RdDone

datatype pr_pc =
    PrParse string
  | PrSend chan string RawResponse
  | PrDelete string
  | PrDone

text \<open>A goroutine: a caller inside \<open>Request\<close>, a writer loop with the file it writes
  to, the caller of \<open>StartUp\<close> inside \<open>readQueue\<close>, or a \<open>processResponse\<close>.\<close>

datatype thread =
    Caller req_pc
  | Writer nat wr_pc
  | Reader rd_pc
  | Resolver pr_pc

text \<open>\<open>sent\<close> is a history variable: the requests handed over on a request queue, in
  the order in which the sends of line 126 completed. No step reads it.\<close>

record world =
  cl :: Client
  queueClosed :: "chan \<Rightarrow> bool"
  nextQueue :: chan
  replyCh :: "chan \<Rightarrow> replychan"
  nextReply :: chan
  threads :: "thread list"
  outputs :: "nat \<Rightarrow> string"
  logs :: "logline list"
  now :: int
  sent :: "Request list"
  panicked :: "string option"

text \<open>What the environment and the scheduler can do. \<open>Run t\<close> is the next step of
  goroutine \<open>t\<close>; \<open>Fire t\<close> is the timer case of its \<open>select\<close>; \<open>Handoff c w\<close> is the
  rendezvous of caller \<open>c\<close>'s send with writer \<open>w\<close>'s receive on the unbuffered queue;
  \<open>Tick n\<close> lets \<open>n\<close> nanoseconds pass.\<close>

datatype event =
    CallRequest Method
  | CallStartUp "string list" nat
  | CallShutdown
  | CallSetTimeout "64 word"
  | Tick nat
  | Run nat
  | Fire nat
  | Handoff nat nat

subsection \<open>Operations of client.go\<close>

text \<open>\<open>NewClient\<close> (lines 28-34): the queue is channel 0, the map is empty, the
  timeout is \<open>time.Duration(20)\<close>; \<open>shutdown\<close> and \<open>requestCounter\<close> keep Go's
  zero values.\<close>

definition NewClient :: world where
  "NewClient =
     \<lparr> cl = \<lparr> requestQueue = 0, pendingReq = [], requestCounter = 0,
              shutdown = False, timeout = 20 \<rparr>,
       queueClosed = (\<lambda>_. False), nextQueue = 1,
       replyCh = (\<lambda>_. \<lparr> buf = [], closed = False \<rparr>), nextReply = 0,
       threads = [], outputs = (\<lambda>_. []), logs = [], now = 0, sent = [],
       panicked = None \<rparr>"

text \<open>\<open>SetTimeout\<close> (lines 36-38): \<open>time.Duration(secs)\<close> keeps the 64 bits of the
  \<open>uint\<close>.\<close>

definition SetTimeout :: "Client \<Rightarrow> 64 word \<Rightarrow> Client" where
  "SetTimeout c secs = c\<lparr>timeout := secs\<rparr>"

text \<open>\<open>NextId\<close> (lines 154-157): \<open>atomic.AddInt64(&c.requestCounter, 1)\<close>.\<close>

definition NextId :: "Client \<Rightarrow> Client \<times> 64 word" where
  "NextId c = (let val = requestCounter c + 1 in (c\<lparr>requestCounter := val\<rparr>, val))"

text \<open>Line 122, \<open>c.pendingReq[id.Val()] = replyChan\<close>.\<close>

definition register :: "Client \<Rightarrow> string \<Rightarrow> chan \<Rightarrow> Client" where
  "register c k ch = c\<lparr>pendingReq := AList.update k ch (pendingReq c)\<rparr>"

text \<open>Lines 110 and 132, \<open>delete(c.pendingReq, id)\<close>.\<close>

definition cancel :: "Client \<Rightarrow> string \<Rightarrow> Client" where
  "cancel c k = c\<lparr>pendingReq := AList.delete k (pendingReq c)\<rparr>"

text \<open>\<open>handleReply\<close> (lines 137-151); \<open>None\<close> is the nil error.\<close>

definition handleReply :: "ext \<Rightarrow> RawResponse option \<Rightarrow> error option" where
  "handleReply X rawResp =
     (case rawResp of
        None \<Rightarrow> Some PipeClosed
      | Some r \<Rightarrow>
          (case resp_Error r of
             Some e \<Rightarrow> Some (RpcError e)
           | None \<Rightarrow>
               (case Decode X (resp_Raw r) of
                  Some e \<Rightarrow> Some (DecodeError e)
                | None \<Rightarrow> None)))"

definition set_thread :: "world \<Rightarrow> nat \<Rightarrow> thread \<Rightarrow> world" where
  "set_thread w t th = w\<lparr>threads := (threads w)[t := th]\<rparr>"

definition panic :: "world \<Rightarrow> string \<Rightarrow> world" where
  "panic w msg = w\<lparr>panicked := Some msg\<rparr>"

text \<open>\<open>Request\<close> (lines 115-135), one equation per program point:
  the check of line 116; \<open>NextId\<close>; \<open>make\<close> and the map store of lines 121-122;
  reading \<open>c.requestQueue\<close> and then the blocking send of line 126 (completed by
  \<open>handoff\<close>, a panic on a closed queue); entering the \<open>select\<close>, which evaluates
  \<open>time.After(c.timeout * time.Second)\<close> in int64; the receive case of line 129;
  the \<open>delete\<close> and return of lines 132-133.\<close>

fun Request_step :: "ext \<Rightarrow> world \<Rightarrow> nat \<Rightarrow> req_pc \<Rightarrow> world option" where
  "Request_step X w t (ReqCheck m) =
     Some (set_thread w t
       (Caller (if shutdown (cl w) then ReqReturn (Some ClientIsShutdown) else ReqNextId m)))"
| "Request_step X w t (ReqNextId m) =
     (case NextId (cl w) of
        (c, val) \<Rightarrow> Some (set_thread (w\<lparr>cl := c\<rparr>) t (Caller (ReqRegister val m))))"
| "Request_step X w t (ReqRegister val m) =
     (let ch = nextReply w in
      Some (set_thread
        (w\<lparr>cl := register (cl w) (Val X val) ch,
           replyCh := (replyCh w)(ch := \<lparr> buf = [], closed = False \<rparr>),
           nextReply := ch + 1\<rparr>)
        t (Caller (ReqQueue \<lparr> req_id = val, req_method = m \<rparr> ch))))"
| "Request_step X w t (ReqQueue req ch) =
     Some (set_thread w t (Caller (ReqSend (requestQueue (cl w)) req ch)))"
| "Request_step X w t (ReqSend q req ch) =
     (if queueClosed w q then Some (panic w ''send on closed channel'') else None)"
| "Request_step X w t (ReqTimer req ch) =
     Some (set_thread w t
       (Caller (ReqSelect req ch (now w + sint (timeout (cl w) * 1000000000)))))"
| "Request_step X w t (ReqSelect req ch deadline) =
     (case buf (replyCh w ch) of
        r # rs \<Rightarrow>
          Some (set_thread (w\<lparr>replyCh := (replyCh w)(ch := (replyCh w ch)\<lparr>buf := rs\<rparr>)\<rparr>) t
            (Caller (ReqReturn (handleReply X (Some r)))))
      | [] \<Rightarrow>
          if closed (replyCh w ch)
          then Some (set_thread w t (Caller (ReqReturn (handleReply X None))))
          else None)"
| "Request_step X w t (ReqTimeout req) =
     Some (set_thread (w\<lparr>cl := cancel (cl w) (Val X (req_id req))\<rparr>) t
       (Caller (ReqReturn (Some RequestTimedOut))))"
| "Request_step X w t (ReqReturn e) = None"

text \<open>The timer case of the \<open>select\<close> (line 131): ready once the clock has reached
  the deadline.\<close>

fun Request_fire :: "world \<Rightarrow> nat \<Rightarrow> thread \<Rightarrow> world option" where
  "Request_fire w t (Caller (ReqSelect req ch deadline)) =
     (if deadline \<le> now w then Some (set_thread w t (Caller (ReqTimeout req))) else None)"
| "Request_fire w t _ = None"

text \<open>\<open>setupWriteQueue\<close> (lines 56-70): \<open>range c.requestQueue\<close> reads the field once;
  the loop ends when that queue is closed; an envelope that does not marshal is logged
  and skipped; the others are written with two newlines and flushed.\<close>

definition twoNewlines :: string where
  "twoNewlines = [CHR 0x0A, CHR 0x0A]"

fun setupWriteQueue_step :: "ext \<Rightarrow> world \<Rightarrow> nat \<Rightarrow> nat \<Rightarrow> wr_pc \<Rightarrow> world option" where
  "setupWriteQueue_step X w t out WrInit =
     Some (set_thread w t (Writer out (WrRecv (requestQueue (cl w)))))"
| "setupWriteQueue_step X w t out (WrRecv q) =
     (if queueClosed w q then Some (set_thread w t (Writer out WrDone)) else None)"
| "setupWriteQueue_step X w t out (WrWrite q request) =
     (case Marshal X request of
        Inl e \<Rightarrow> Some (set_thread (w\<lparr>logs := logs w @ [LogMarshal e]\<rparr>) t (Writer out (WrRecv q)))
      | Inr data \<Rightarrow>
          Some (set_thread (w\<lparr>outputs := (outputs w)(out := outputs w out @ data @ twoNewlines)\<rparr>)
            t (Writer out (WrRecv q))))"
| "setupWriteQueue_step X w t out WrDone = None"

text \<open>The rendezvous on the unbuffered queue: the send of line 126 meets the receive
  of line 60.\<close>

definition handoff :: "world \<Rightarrow> nat \<Rightarrow> nat \<Rightarrow> world option" where
  "handoff w c wt =
     (if c < length (threads w) \<and> wt < length (threads w) then
        (case (threads w ! c, threads w ! wt) of
           (Caller (ReqSend q req ch), Writer out (WrRecv q')) \<Rightarrow>
             if q = q' \<and> \<not> queueClosed w q
             then Some (w\<lparr>threads := (threads w)[c := Caller (ReqTimer req ch),
                                                 wt := Writer out (WrWrite q req)],
                          sent := sent w @ [req]\<rparr>)
             else None
         | _ \<Rightarrow> None)
      else None)"

text \<open>\<open>readQueue\<close> (lines 72-79) over the chunks the scanner will deliver: \<open>Scan\<close>
  is false when there is none left; when it is true the flag is read, and the loop
  either ends or starts \<open>processResponse\<close> on a new goroutine.\<close>

fun readQueue_step :: "world \<Rightarrow> nat \<Rightarrow> rd_pc \<Rightarrow> world option" where
  "readQueue_step w t (RdScan []) = Some (set_thread w t (Reader RdDone))"
| "readQueue_step w t (RdScan (msg # rest)) =
     (if shutdown (cl w) then Some (set_thread w t (Reader RdDone))
      else Some (w\<lparr>threads := (threads w)[t := Reader (RdScan rest)] @ [Resolver (PrParse msg)]\<rparr>))"
| "readQueue_step w t RdDone = None"

text \<open>\<open>sendResponse\<close> (lines 103-111), at the lookup of line 104.\<close>

definition sendResponse :: "world \<Rightarrow> nat \<Rightarrow> string \<Rightarrow> RawResponse \<Rightarrow> world" where
  "sendResponse w t ident resp =
     (case map_of (pendingReq (cl w)) ident of
        None \<Rightarrow> set_thread (w\<lparr>logs := logs w @ [LogNoChannel ident]\<rparr>) t (Resolver PrDone)
      | Some respChan \<Rightarrow> set_thread w t (Resolver (PrSend respChan ident resp)))"

text \<open>\<open>processResponse\<close> (lines 81-101) up to the lookup; a nil \<open>rawResp\<close> is
  dereferenced at line 90.\<close>

definition processResponse :: "ext \<Rightarrow> world \<Rightarrow> nat \<Rightarrow> string \<Rightarrow> world" where
  "processResponse X w t msg =
     (case Unmarshal X msg of
        Inl e \<Rightarrow> set_thread (w\<lparr>logs := logs w @ [LogParse e]\<rparr>) t (Resolver PrDone)
      | Inr None \<Rightarrow> panic w ''nil pointer dereference''
      | Inr (Some rawResp) \<Rightarrow>
          (case resp_Id rawResp of
             None \<Rightarrow> set_thread (w\<lparr>logs := logs w @ [LogNoId]\<rparr>) t (Resolver PrDone)
           | Some v \<Rightarrow>
               if v = [] then set_thread (w\<lparr>logs := logs w @ [LogNoId]\<rparr>) t (Resolver PrDone)
               else sendResponse w t v rawResp))"

text \<open>The rest of \<open>sendResponse\<close>: the send of line 109 on a channel of capacity 1
  (a panic when it is closed, blocked while the buffer is full), then the \<open>delete\<close>
  of line 110.\<close>

fun processResponse_step :: "ext \<Rightarrow> world \<Rightarrow> nat \<Rightarrow> pr_pc \<Rightarrow> world option" where
  "processResponse_step X w t (PrParse msg) = Some (processResponse X w t msg)"
| "processResponse_step X w t (PrSend respChan ident resp) =
     (if closed (replyCh w respChan) then Some (panic w ''send on closed channel'')
      else if length (buf (replyCh w respChan)) < 1
      then Some (set_thread
             (w\<lparr>replyCh := (replyCh w)
                   (respChan := (replyCh w respChan)\<lparr>buf := buf (replyCh w respChan) @ [resp]\<rparr>)\<rparr>)
             t (Resolver (PrDelete ident)))
      else None)"
| "processResponse_step X w t (PrDelete ident) =
     Some (set_thread (w\<lparr>cl := cancel (cl w) ident\<rparr>) t (Resolver PrDone))"
| "processResponse_step X w t PrDone = None"

text \<open>\<open>StartUp\<close> (lines 40-44): the flag is cleared, the writer goroutine is started,
  and the calling goroutine goes on as the reader loop over the chunks of \<open>in\<close>.\<close>

definition StartUp :: "world \<Rightarrow> string list \<Rightarrow> nat \<Rightarrow> world" where
  "StartUp w inp out =
     w\<lparr>cl := (cl w)\<lparr>shutdown := False\<rparr>,
       threads := threads w @ [Writer out WrInit, Reader (RdScan inp)]\<rparr>"

text \<open>\<open>close(v)\<close> for every channel of the map (lines 49-51); closing a closed
  channel panics.\<close>

fun close_all :: "chan list \<Rightarrow> (chan \<Rightarrow> replychan) \<Rightarrow> (chan \<Rightarrow> replychan) option" where
  "close_all [] h = Some h"
| "close_all (v # vs) h =
     (if closed (h v) then None else close_all vs (h(v := (h v)\<lparr>closed := True\<rparr>)))"

text \<open>\<open>Shutdown\<close> (lines 46-54).\<close>

definition Shutdown :: "world \<Rightarrow> world" where
  "Shutdown w =
     (let c = (cl w)\<lparr>shutdown := True\<rparr>;
          q = requestQueue c
      in if queueClosed w q then panic (w\<lparr>cl := c\<rparr>) ''close of closed channel''
         else
           (case close_all (map snd (pendingReq c)) (replyCh w) of
              None \<Rightarrow>
                panic (w\<lparr>cl := c, queueClosed := (queueClosed w)(q := True)\<rparr>)
                  ''close of closed channel''
            | Some h \<Rightarrow>
                w\<lparr>cl := c\<lparr>pendingReq := [], requestQueue := nextQueue w\<rparr>,
                  queueClosed := (queueClosed w)(q := True, nextQueue w := False),
                  nextQueue := nextQueue w + 1,
                  replyCh := h\<rparr>))"

subsection \<open>The transition system\<close>

definition run_thread :: "ext \<Rightarrow> world \<Rightarrow> nat \<Rightarrow> world option" where
  "run_thread X w t =
     (if t < length (threads w) then
        (case threads w ! t of
           Caller pc \<Rightarrow> Request_step X w t pc
         | Writer out pc \<Rightarrow> setupWriteQueue_step X w t out pc
         | Reader pc \<Rightarrow> readQueue_step w t pc
         | Resolver pc \<Rightarrow> processResponse_step X w t pc)
      else None)"

definition step :: "ext \<Rightarrow> world \<Rightarrow> event \<Rightarrow> world option" where
  "step X w e =
     (if panicked w \<noteq> None then None
      else
        (case e of
           CallRequest m \<Rightarrow> Some (w\<lparr>threads := threads w @ [Caller (ReqCheck m)]\<rparr>)
         | CallStartUp inp out \<Rightarrow> Some (StartUp w inp out)
         | CallShutdown \<Rightarrow> Some (Shutdown w)
         | CallSetTimeout secs \<Rightarrow> Some (w\<lparr>cl := SetTimeout (cl w) secs\<rparr>)
         | Tick n \<Rightarrow> Some (w\<lparr>now := now w + int n\<rparr>)
         | Run t \<Rightarrow> run_thread X w t
         | Fire t \<Rightarrow> (if t < length (threads w) then Request_fire w t (threads w ! t) else None)
         | Handoff c wt \<Rightarrow> handoff w c wt))"

fun exec :: "ext \<Rightarrow> world \<Rightarrow> event list \<Rightarrow> world option" where
  "exec X w [] = Some w"
| "exec X w (e # es) = (case step X w e of None \<Rightarrow> None | Some w' \<Rightarrow> exec X w' es)"

subsection \<open>An instance of the library functions, to run examples\<close>

fun decimal :: "nat \<Rightarrow> string" where
  "decimal n =
     (if n < 10 then [''0123456789'' ! n]
      else decimal (n div 10) @ [''0123456789'' ! (n mod 10)])"

definition demo :: ext where
  "demo =
     \<lparr> Val = (\<lambda>v. decimal (unat v)),
       Marshal = (\<lambda>r. if req_method r = [] then Inl ''unsupported value''
                      else Inr (decimal (unat (req_id r)) @ '':'' @ req_method r)),
       Unmarshal = (\<lambda>msg. if msg = ''null'' then Inr None
                          else if msg = [] then Inl ''unexpected end of JSON input''
                          else Inr (Some \<lparr> resp_Id = Some msg, resp_Raw = ''{}'',
                                           resp_Error = None \<rparr>)),
       Decode = (\<lambda>raw. None) \<rparr>"

subsection \<open>Observations used in the statements\<close>

text \<open>What an event does to the flag \<open>c.shutdown\<close>, the only lifecycle state the
  code keeps: \<open>StartUp\<close> clears it (line 41), \<open>Shutdown\<close> sets it (line 47), nothing
  else writes it.\<close>

definition lifecycle_flag :: "event \<Rightarrow> bool \<Rightarrow> bool" where
  "lifecycle_flag e b =
     (case e of CallStartUp inp out \<Rightarrow> False | CallShutdown \<Rightarrow> True | _ \<Rightarrow> b)"

datatype access = MapRead | MapWrite

text \<open>The steps that touch the map \<open>c.pendingReq\<close>: the store of line 122, the
  \<open>delete\<close> of line 132, the lookup of line 104 (reached when the reply parses and has
  an identifier) and the \<open>delete\<close> of line 110.\<close>

fun pendingReq_access :: "ext \<Rightarrow> thread \<Rightarrow> access option" where
  "pendingReq_access X (Caller (ReqRegister val m)) = Some MapWrite"
| "pendingReq_access X (Caller (ReqTimeout req)) = Some MapWrite"
| "pendingReq_access X (Resolver (PrParse msg)) =
     (case Unmarshal X msg of
        Inr (Some rawResp) \<Rightarrow>
          (case resp_Id rawResp of
             Some v \<Rightarrow> if v = [] then None else Some MapRead
           | None \<Rightarrow> None)
      | _ \<Rightarrow> None)"
| "pendingReq_access X (Resolver (PrDelete ident)) = Some MapWrite"
| "pendingReq_access X _ = None"

text \<open>Two goroutines race on the map when both can take their next step now, both
  steps touch the map, and one of them writes it. The \<open>Client\<close> struct has no lock
  and no step waits for one.\<close>

definition data_race :: "ext \<Rightarrow> world \<Rightarrow> nat \<Rightarrow> nat \<Rightarrow> bool" where
  "data_race X w t u \<longleftrightarrow>
     t \<noteq> u \<and> t < length (threads w) \<and> u < length (threads w) \<and>
     step X w (Run t) \<noteq> None \<and> step X w (Run u) \<noteq> None \<and>
     (case (pendingReq_access X (threads w ! t), pendingReq_access X (threads w ! u)) of
        (Some a, Some b) \<Rightarrow> a = MapWrite \<or> b = MapWrite
      | _ \<Rightarrow> False)"

text \<open>The bytes that one turn of the writer loop puts on its file for an envelope:
  nothing when it does not marshal (lines 62-65), else the JSON and two newlines.\<close>

definition wire :: "ext \<Rightarrow> Request \<Rightarrow> string" where
  "wire X request =
     (case Marshal X request of Inl e \<Rightarrow> [] | Inr data \<Rightarrow> data @ twoNewlines)"

text \<open>Observations on goroutines: whether one is a writer loop, the envelope a
  writer loop has received and not yet written, and the file a writer loop writes.\<close>

fun is_writer :: "thread \<Rightarrow> bool" where
  "is_writer (Writer out pc) = True"
| "is_writer _ = False"

fun holding :: "thread \<Rightarrow> Request list" where
  "holding (Writer out (WrWrite q request)) = [request]"
| "holding _ = []"

fun out_of :: "thread \<Rightarrow> nat" where
  "out_of (Writer out pc) = out"
| "out_of _ = 0"

text \<open>Goroutine \<open>i\<close> is the only writer loop of the world.\<close>

definition sole_writer :: "world \<Rightarrow> nat \<Rightarrow> bool" where
  "sole_writer w i \<longleftrightarrow>
     i < length (threads w) \<and> is_writer (threads w ! i) \<and>
     (\<forall>j<length (threads w). is_writer (threads w ! j) \<longrightarrow> j = i)"

text \<open>The invariant behind the order on the wire: with one writer loop, its file
  followed by the envelope it holds is the encoding of the envelopes handed over, in
  the order of the handing over; with none, nothing was handed over or written.\<close>

definition wire_inv :: "ext \<Rightarrow> world \<Rightarrow> bool" where
  "wire_inv X w \<longleftrightarrow>
     (\<forall>i. sole_writer w i \<longrightarrow>
        outputs w (out_of (threads w ! i)) @ concat (map (wire X) (holding (threads w ! i)))
          = concat (map (wire X) (sent w))) \<and>
     ((\<forall>j<length (threads w). \<not> is_writer (threads w ! j)) \<longrightarrow>
        sent w = [] \<and> (\<forall>fd. outputs w fd = []))"

subsection \<open>Example runs\<close>

text \<open>A client is started on an empty input, its writer loop reaches the queue, and
  one \<open>Request\<close> runs until it waits in the \<open>select\<close>: goroutine 0 is the writer,
  1 the reader (the caller of \<open>StartUp\<close>), 2 the caller of \<open>Request\<close>.\<close>

definition one_call_waiting :: "event list" where
  "one_call_waiting =
     [CallStartUp [] 0, Run 0, CallRequest ''ping'', Run 2, Run 2, Run 2, Run 2,
      Handoff 2 0, Run 2]"

text \<open>The same run on an input whose one chunk is a reply for identifier 99, which
  nobody registered; the reader loop has started goroutine 3 to process it.\<close>

definition stray_reply_arrives :: "event list" where
  "stray_reply_arrives =
     [CallStartUp [''99''] 0, Run 0, CallRequest ''ping'', Run 2, Run 2, Run 2, Run 2,
      Handoff 2 0, Run 2, Run 1]"

text \<open>Two callers have taken their identifiers and both stand before the store of
  line 122.\<close>

definition two_calls_registering :: "event list" where
  "two_calls_registering =
     [CallStartUp [] 0, Run 0, CallRequest ''ping'', CallRequest ''pong'',
      Run 2, Run 2, Run 3, Run 3]"

text \<open>The reply to call 1 has been scanned and its \<open>processResponse\<close> (goroutine 3)
  stands before the lookup, while a second caller (goroutine 4) stands before its
  store.\<close>

definition reply_meets_call :: "event list" where
  "reply_meets_call =
     [CallStartUp [''1''] 0, Run 0, CallRequest ''ping'', Run 2, Run 2, Run 2, Run 2,
      Handoff 2 0, Run 2, Run 1, CallRequest ''pong'', Run 4, Run 4]"

text \<open>A client whose timeout was set to \<open>secs\<close> seconds, with one call waiting in
  its \<open>select\<close>.\<close>

definition call_with_timeout :: "64 word \<Rightarrow> event list" where
  "call_with_timeout secs =
     [CallSetTimeout secs, CallStartUp [] 0, Run 0, CallRequest ''ping'',
      Run 2, Run 2, Run 2, Run 2, Handoff 2 0, Run 2]"

text \<open>Two calls are made one after the other and the writer loop has written
  both.\<close>

definition two_calls_written :: "event list" where
  "two_calls_written =
     [CallStartUp [] 0, Run 0, CallRequest ''ping'', CallRequest ''pong'',
      Run 2, Run 2, Run 2, Run 2, Run 3, Run 3, Run 3, Run 3,
      Handoff 2 0, Run 0, Handoff 3 0, Run 0]"

section \<open>Running the model on examples\<close>

lemmas run_defs = step_def run_thread_def set_thread_def StartUp_def Shutdown_def
  NewClient_def demo_def handoff_def NextId_def register_def cancel_def panic_def
  SetTimeout_def processResponse_def sendResponse_def handleReply_def twoNewlines_def
  Let_def

section \<open>Request on a client that is not running\<close>

lemma Request_rejected:
  assumes "shutdown (cl w)" and "panicked w = None"
  shows "exec X w [CallRequest m, Run (length (threads w))] =
           Some (w\<lparr>threads := threads w @ [Caller (ReqReturn (Some ClientIsShutdown))]\<rparr>)"
  using assms by (simp add: step_def run_thread_def set_thread_def)

text \<open>
  Claim C1, as the code has it. \<open>Request\<close> tests the one flag \<open>c.shutdown\<close>. When the
  flag is set, a call of \<open>Request\<close> returns the error "Client is shutdown" with its
  first step: the world is the one before the call plus the returned goroutine, so no
  identifier is taken or registered, nothing is put on the queue or written, and the
  call is never blocked.
\<close>

theorem Request_when_shutdown:
  assumes "shutdown (cl w)" and "panicked w = None"
  shows "exec X w [CallRequest m, Run (length (threads w))] =
           Some (w\<lparr>threads := threads w @ [Caller (ReqReturn (Some ClientIsShutdown))]\<rparr>)"
  using assms by (rule Request_rejected)

theorem Request_when_shutdown_witness:
  "shutdown (cl (Shutdown NewClient)) \<and> panicked (Shutdown NewClient) = None \<and>
   exec demo (Shutdown NewClient)
     [CallRequest ''ping'', Run (length (threads (Shutdown NewClient)))] =
     Some ((Shutdown NewClient)\<lparr>threads := threads (Shutdown NewClient) @
        [Caller (ReqReturn (Some ClientIsShutdown))]\<rparr>)"
proof -
  have a: "shutdown (cl (Shutdown NewClient))"
    by (simp add: Shutdown_def NewClient_def)
  have b: "panicked (Shutdown NewClient) = None"
    by (simp add: Shutdown_def NewClient_def)
  show ?thesis
    using a b Request_when_shutdown [OF a b, of demo "''ping''"] by simp
qed

text \<open>
  Claim C1 as stated fails before \<open>StartUp\<close>: \<open>NewClient\<close> leaves the flag false, so
  a \<open>Request\<close> on the fresh client takes identifier 1, registers a reply channel under
  it, and stays blocked in the send of line 126, which no writer loop receives.
\<close>

theorem Request_before_StartUp_counterexample:
  "\<not> shutdown (cl NewClient) \<and>
   map_option threads
     (exec demo NewClient [CallRequest ''ping'', Run 0, Run 0, Run 0, Run 0]) =
     Some [Caller (ReqSend 0 \<lparr>req_id = 1, req_method = ''ping''\<rparr> 0)] \<and>
   map_option (pendingReq \<circ> cl)
     (exec demo NewClient [CallRequest ''ping'', Run 0, Run 0, Run 0, Run 0]) =
     Some [(''1'', 0)] \<and>
   exec demo NewClient [CallRequest ''ping'', Run 0, Run 0, Run 0, Run 0, Run 0] = None"
  by (simp add: run_defs)

section \<open>The reader loop at its end\<close>

text \<open>
  Claim C2, as the code has it. \<open>readQueue\<close> has no drain. The step with which it
  terminates, on the end of the input or on seeing the flag, changes nothing but the
  reader's own program counter: the registry keeps every entry and no reply channel is
  closed or written, so no waiting caller is released by it.
\<close>

theorem readQueue_end_keeps_registry:
  assumes "step X w (Run t) = Some w'" and "threads w ! t = Reader pc"
    and "threads w' ! t = Reader RdDone"
  shows "w' = w\<lparr>threads := (threads w)[t := Reader RdDone]\<rparr>"
proof -
  from assms(1) have np: "panicked w = None" and t: "t < length (threads w)"
    and r: "readQueue_step w t pc = Some w'"
    using assms(2) by (auto simp: step_def run_thread_def split: if_splits)
  show ?thesis
  proof (cases pc)
    case (RdScan inp)
    show ?thesis
    proof (cases inp)
      case Nil
      with RdScan r show ?thesis by (simp add: set_thread_def)
    next
      case (Cons msg rest)
      with RdScan r assms(3) t show ?thesis
        by (auto simp: set_thread_def nth_append split: if_splits)
    qed
  next
    case RdDone
    with r show ?thesis by simp
  qed
qed

theorem readQueue_end_keeps_registry_witness:
  "exec demo NewClient one_call_waiting \<noteq> None \<and>
   step demo (the (exec demo NewClient one_call_waiting)) (Run 1) =
     Some (the (exec demo NewClient (one_call_waiting @ [Run 1]))) \<and>
   threads (the (exec demo NewClient one_call_waiting)) ! 1 = Reader (RdScan []) \<and>
   threads (the (exec demo NewClient (one_call_waiting @ [Run 1]))) ! 1 = Reader RdDone \<and>
   the (exec demo NewClient (one_call_waiting @ [Run 1])) =
     (the (exec demo NewClient one_call_waiting))
       \<lparr>threads := (threads (the (exec demo NewClient one_call_waiting)))[1 := Reader RdDone]\<rparr>"
proof -
  let ?w = "the (exec demo NewClient one_call_waiting)"
  let ?w' = "the (exec demo NewClient (one_call_waiting @ [Run 1]))"
  have e: "exec demo NewClient one_call_waiting \<noteq> None"
    by (simp add: one_call_waiting_def run_defs)
  have a: "step demo ?w (Run 1) = Some ?w'"
    by (simp add: one_call_waiting_def run_defs)
  have b: "threads ?w ! 1 = Reader (RdScan [])"
    by (simp add: one_call_waiting_def run_defs)
  have c: "threads ?w' ! 1 = Reader RdDone"
    by (simp add: one_call_waiting_def run_defs)
  from readQueue_end_keeps_registry [OF a b c] e a b c show ?thesis by blast
qed

text \<open>
  Claim C2 as stated fails: with one call waiting in its \<open>select\<close>, the reader loop
  ends on the exhausted input; the entry for identifier 1 is still registered and the
  caller's next step is still blocked.
\<close>

theorem readQueue_no_drain_counterexample:
  "map_option threads (exec demo NewClient (one_call_waiting @ [Run 1])) =
     Some [Writer 0 (WrWrite 0 \<lparr>req_id = 1, req_method = ''ping''\<rparr>), Reader RdDone,
           Caller (ReqSelect \<lparr>req_id = 1, req_method = ''ping''\<rparr> 0 20000000000)] \<and>
   map_option (pendingReq \<circ> cl) (exec demo NewClient (one_call_waiting @ [Run 1])) =
     Some [(''1'', 0)] \<and>
   exec demo NewClient (one_call_waiting @ [Run 1, Run 2]) = None"
  by (simp add: one_call_waiting_def run_defs)

section \<open>Shutdown\<close>

lemma close_all_keeps_closed:
  "close_all vs h = Some h' \<Longrightarrow> closed (h v) \<Longrightarrow> closed (h' v)"
  by (induction vs arbitrary: h) (auto split: if_splits)

lemma close_all_closes:
  "close_all vs h = Some h' \<Longrightarrow> v \<in> set vs \<Longrightarrow> closed (h' v)"
proof (induction vs arbitrary: h)
  case Nil
  then show ?case by simp
next
  case (Cons u us)
  from Cons.prems(1) have rest: "close_all us (h(u := (h u)\<lparr>closed := True\<rparr>)) = Some h'"
    by (simp split: if_splits)
  show ?case
  proof (cases "v = u")
    case True
    then show ?thesis using close_all_keeps_closed [OF rest, of v] by simp
  next
    case False
    with Cons.prems(2) have "v \<in> set us" by simp
    from Cons.IH [OF rest this] show ?thesis .
  qed
qed

lemma close_all_buf:
  "close_all vs h = Some h' \<Longrightarrow> buf (h' v) = buf (h v)"
  by (induction vs arbitrary: h) (auto split: if_splits)

lemma Shutdown_cases:
  assumes "panicked w = None" and "panicked (Shutdown w) = None"
  obtains h where "\<not> queueClosed w (requestQueue (cl w))"
    and "close_all (map snd (pendingReq (cl w))) (replyCh w) = Some h"
    and "Shutdown w =
      w\<lparr>cl := (cl w)\<lparr>shutdown := True, pendingReq := [], requestQueue := nextQueue w\<rparr>,
        queueClosed := (queueClosed w)(requestQueue (cl w) := True, nextQueue w := False),
        nextQueue := nextQueue w + 1,
        replyCh := h\<rparr>"
  using assms
  by (auto simp: Shutdown_def Let_def panic_def split: if_splits option.splits)

text \<open>
  Claim C3, as the code has it. \<open>Shutdown\<close> closes every registered reply channel and
  empties the map. A caller that waits in the \<open>select\<close> on a registered channel with
  an empty buffer then receives nil, and \<open>handleReply\<close> makes of it the error "Pipe
  closed unexpectedly, nil result", which is not the error "Client is shutdown". A
  \<open>Request\<close> that starts after \<open>Shutdown\<close> returns "Client is shutdown" with its
  first step; \<open>Shutdown\<close> and that call write nothing to any output.
\<close>

theorem Shutdown_releases_callers:
  assumes "panicked w = None" and "panicked (Shutdown w) = None"
    and "t < length (threads w)"
    and "threads w ! t = Caller (ReqSelect req ch deadline)"
    and "ch \<in> snd ` set (pendingReq (cl w))"
    and "buf (replyCh w ch) = []"
  shows "exec X w [CallShutdown, Run t] =
           Some ((Shutdown w)\<lparr>threads := (threads w)[t := Caller (ReqReturn (Some PipeClosed))]\<rparr>) \<and>
         exec X w [CallShutdown, CallRequest m, Run (length (threads w))] =
           Some ((Shutdown w)\<lparr>threads := threads w @ [Caller (ReqReturn (Some ClientIsShutdown))]\<rparr>) \<and>
         outputs (Shutdown w) = outputs w \<and> sent (Shutdown w) = sent w \<and>
         pendingReq (cl (Shutdown w)) = []"
proof -
  from Shutdown_cases [OF assms(1,2)] obtain h
    where ca: "close_all (map snd (pendingReq (cl w))) (replyCh w) = Some h"
      and sd: "Shutdown w =
        w\<lparr>cl := (cl w)\<lparr>shutdown := True, pendingReq := [], requestQueue := nextQueue w\<rparr>,
          queueClosed := (queueClosed w)(requestQueue (cl w) := True, nextQueue w := False),
          nextQueue := nextQueue w + 1,
          replyCh := h\<rparr>"
    by blast
  from assms(5) have "ch \<in> set (map snd (pendingReq (cl w)))" by simp
  from close_all_closes [OF ca this] have cl: "closed (h ch)" .
  from close_all_buf [OF ca, of ch] assms(6) have bf: "buf (h ch) = []" by simp
  have th: "threads (Shutdown w) = threads w" and fl: "shutdown (cl (Shutdown w))"
    and rc: "replyCh (Shutdown w) = h"
    by (simp_all add: sd)
  have s1: "step X w CallShutdown = Some (Shutdown w)"
    using assms(1) by (simp add: step_def)
  have s2: "step X (Shutdown w) (Run t) =
      Some ((Shutdown w)\<lparr>threads := (threads w)[t := Caller (ReqReturn (Some PipeClosed))]\<rparr>)"
    using assms(2,3,4) cl bf th rc
    by (simp add: step_def run_thread_def set_thread_def handleReply_def)
  have s3: "exec X (Shutdown w) [CallRequest m, Run (length (threads w))] =
      Some ((Shutdown w)\<lparr>threads := threads w @ [Caller (ReqReturn (Some ClientIsShutdown))]\<rparr>)"
    using Request_rejected [OF fl assms(2), of X m] th by simp
  have s4: "outputs (Shutdown w) = outputs w \<and> sent (Shutdown w) = sent w \<and>
         pendingReq (cl (Shutdown w)) = []"
    by (simp add: sd)
  from s1 s2 s3 s4 show ?thesis by simp
qed

theorem Shutdown_releases_callers_witness:
  "panicked (the (exec demo NewClient one_call_waiting)) = None \<and>
   panicked (Shutdown (the (exec demo NewClient one_call_waiting))) = None \<and>
   2 < length (threads (the (exec demo NewClient one_call_waiting))) \<and>
   threads (the (exec demo NewClient one_call_waiting)) ! 2 =
     Caller (ReqSelect \<lparr>req_id = 1, req_method = ''ping''\<rparr> 0 20000000000) \<and>
   0 \<in> snd ` set (pendingReq (cl (the (exec demo NewClient one_call_waiting)))) \<and>
   buf (replyCh (the (exec demo NewClient one_call_waiting)) 0) = [] \<and>
   exec demo (the (exec demo NewClient one_call_waiting)) [CallShutdown, Run 2] =
     Some ((Shutdown (the (exec demo NewClient one_call_waiting)))
       \<lparr>threads := (threads (the (exec demo NewClient one_call_waiting)))
          [2 := Caller (ReqReturn (Some PipeClosed))]\<rparr>) \<and>
   exec demo (the (exec demo NewClient one_call_waiting))
       [CallShutdown, CallRequest ''again'', Run 3] =
     Some ((Shutdown (the (exec demo NewClient one_call_waiting)))
       \<lparr>threads := threads (the (exec demo NewClient one_call_waiting)) @
          [Caller (ReqReturn (Some ClientIsShutdown))]\<rparr>)"
proof -
  let ?w = "the (exec demo NewClient one_call_waiting)"
  have a: "panicked ?w = None" by (simp add: one_call_waiting_def run_defs)
  have b: "panicked (Shutdown ?w) = None" by (simp add: one_call_waiting_def run_defs)
  have c: "2 < length (threads ?w)" by (simp add: one_call_waiting_def run_defs)
  have d: "threads ?w ! 2 = Caller (ReqSelect \<lparr>req_id = 1, req_method = ''ping''\<rparr> 0 20000000000)"
    by (simp add: one_call_waiting_def run_defs)
  have e: "0 \<in> snd ` set (pendingReq (cl ?w))" by (simp add: one_call_waiting_def run_defs)
  have f: "buf (replyCh ?w 0) = []" by (simp add: one_call_waiting_def run_defs)
  have l: "length (threads ?w) = 3" by (simp add: one_call_waiting_def run_defs)
  from Shutdown_releases_callers [OF a b c d e f, of demo "''again''"] a b c d e f l
  show ?thesis by simp
qed

text \<open>
  Claim C3 as stated fails: the caller released by \<open>Shutdown\<close> returns the pipe
  error, not the shutdown error.
\<close>

theorem Shutdown_error_counterexample:
  "map_option threads (exec demo NewClient (one_call_waiting @ [CallShutdown, Run 2])) =
     Some [Writer 0 (WrWrite 0 \<lparr>req_id = 1, req_method = ''ping''\<rparr>), Reader (RdScan []),
           Caller (ReqReturn (Some PipeClosed))] \<and>
   map_option threads (exec demo NewClient (one_call_waiting @ [CallShutdown, Run 2])) \<noteq>
     Some [Writer 0 (WrWrite 0 \<lparr>req_id = 1, req_method = ''ping''\<rparr>), Reader (RdScan []),
           Caller (ReqReturn (Some ClientIsShutdown))]"
  by (simp add: one_call_waiting_def run_defs)

section \<open>Replies without a registry entry\<close>

lemma cancel_removes: "map_of (pendingReq (cancel c k)) k = None"
  by (simp add: cancel_def delete_conv')

text \<open>
  Claim C6. A \<open>processResponse\<close> whose reply carries an identifier with no entry in
  \<open>pendingReq\<close> ends at the lookup of line 104: the world is the one before the step,
  plus one log line and the goroutine's own end. The registry, every reply channel
  and every other goroutine are as they were, so nothing is delivered, no entry is
  removed and no other call is affected. By \<open>cancel_removes\<close> an identifier has no
  entry once its reply was resolved (line 110) or its call timed out (line 132).
\<close>

theorem stray_reply_is_noop:
  assumes "panicked w = None" and "t < length (threads w)"
    and "threads w ! t = Resolver (PrParse msg)"
    and "Unmarshal X msg = Inr (Some r)" and "resp_Id r = Some i" and "i \<noteq> []"
    and "map_of (pendingReq (cl w)) i = None"
  shows "step X w (Run t) =
           Some (w\<lparr>threads := (threads w)[t := Resolver PrDone],
                   logs := logs w @ [LogNoChannel i]\<rparr>)"
  using assms
  by (simp add: step_def run_thread_def processResponse_def sendResponse_def set_thread_def)

theorem stray_reply_is_noop_witness:
  "panicked (the (exec demo NewClient stray_reply_arrives)) = None \<and>
   3 < length (threads (the (exec demo NewClient stray_reply_arrives))) \<and>
   threads (the (exec demo NewClient stray_reply_arrives)) ! 3 = Resolver (PrParse ''99'') \<and>
   Unmarshal demo ''99'' =
     Inr (Some \<lparr>resp_Id = Some ''99'', resp_Raw = ''{}'', resp_Error = None\<rparr>) \<and>
   pendingReq (cl (the (exec demo NewClient stray_reply_arrives))) = [(''1'', 0)] \<and>
   step demo (the (exec demo NewClient stray_reply_arrives)) (Run 3) =
     Some ((the (exec demo NewClient stray_reply_arrives))
       \<lparr>threads := (threads (the (exec demo NewClient stray_reply_arrives)))[3 := Resolver PrDone],
        logs := logs (the (exec demo NewClient stray_reply_arrives)) @ [LogNoChannel ''99'']\<rparr>)"
proof -
  let ?w = "the (exec demo NewClient stray_reply_arrives)"
  let ?r = "\<lparr>resp_Id = Some ''99'', resp_Raw = ''{}'', resp_Error = None\<rparr>"
  have a: "panicked ?w = None" by (simp add: stray_reply_arrives_def run_defs)
  have b: "3 < length (threads ?w)" by (simp add: stray_reply_arrives_def run_defs)
  have c: "threads ?w ! 3 = Resolver (PrParse ''99'')"
    by (simp add: stray_reply_arrives_def run_defs)
  have d: "Unmarshal demo ''99'' = Inr (Some ?r)" by (simp add: demo_def)
  have e: "resp_Id ?r = Some ''99''" by simp
  have f: "''99'' \<noteq> []" by simp
  have p: "pendingReq (cl ?w) = [(''1'', 0)]" by (simp add: stray_reply_arrives_def run_defs)
  then have g: "map_of (pendingReq (cl ?w)) ''99'' = None" by simp
  from stray_reply_is_noop [OF a b c d e f g] a b c d p show ?thesis by simp
qed

section \<open>The lifecycle flag\<close>

lemma Shutdown_flag: "shutdown (cl (Shutdown w))"
  by (simp add: Shutdown_def Let_def panic_def split: option.splits)

lemma run_thread_flag:
  assumes "run_thread X w t = Some w'"
  shows "shutdown (cl w') = shutdown (cl w)"
proof (cases "threads w ! t")
  case (Caller pc)
  with assms show ?thesis
    by (cases pc)
      (auto simp: run_thread_def set_thread_def panic_def NextId_def register_def cancel_def
        Let_def split: if_splits list.splits)
next
  case (Writer out pc)
  with assms show ?thesis
    by (cases pc) (auto simp: run_thread_def set_thread_def split: if_splits sum.splits)
next
  case (Reader pc)
  with assms show ?thesis
    by (cases "(w, t, pc)" rule: readQueue_step.cases)
       (auto simp: run_thread_def set_thread_def split: if_splits)
next
  case (Resolver pc)
  with assms show ?thesis
    by (cases pc)
      (auto simp: run_thread_def set_thread_def panic_def processResponse_def
        sendResponse_def cancel_def split: if_splits sum.splits option.splits)
qed

lemma step_flag:
  assumes "step X w e = Some w'"
  shows "shutdown (cl w') = lifecycle_flag e (shutdown (cl w))"
proof (cases e)
  case (Run t)
  with assms run_thread_flag [of X w t w'] show ?thesis
    by (simp add: step_def lifecycle_flag_def split: if_splits)
next
  case (Fire t)
  with assms show ?thesis
    by (cases "(w, t, threads w ! t)" rule: Request_fire.cases)
       (auto simp: step_def lifecycle_flag_def set_thread_def split: if_splits)
next
  case (Handoff c wt)
  with assms show ?thesis
    by (auto simp: step_def lifecycle_flag_def handoff_def
        split: if_splits thread.splits req_pc.splits wr_pc.splits)
qed (use assms in \<open>auto simp: step_def lifecycle_flag_def StartUp_def SetTimeout_def Shutdown_flag
      split: if_splits\<close>)

text \<open>
  Claim C8, as the code has it. The lifecycle is one boolean. In every world of a
  running program \<open>StartUp\<close> is accepted: it clears the flag and starts a new writer
  loop and a new reader loop, whatever happened before. \<open>Shutdown\<close> sets the flag. No
  other step changes it.
\<close>

theorem StartUp_always_launches:
  assumes "panicked w = None"
  shows "step X w (CallStartUp inp out) =
           Some (w\<lparr>cl := (cl w)\<lparr>shutdown := False\<rparr>,
                   threads := threads w @ [Writer out WrInit, Reader (RdScan inp)]\<rparr>) \<and>
         step X w CallShutdown = Some (Shutdown w) \<and> shutdown (cl (Shutdown w)) \<and>
         (\<forall>e w'. step X w e = Some w' \<longrightarrow>
            shutdown (cl w') = lifecycle_flag e (shutdown (cl w)))"
  using assms step_flag [of X w] by (simp add: step_def StartUp_def Shutdown_flag)

theorem StartUp_always_launches_witness:
  "panicked (Shutdown NewClient) = None \<and>
   step demo (Shutdown NewClient) (CallStartUp [] 0) =
     Some ((Shutdown NewClient)\<lparr>cl := (cl (Shutdown NewClient))\<lparr>shutdown := False\<rparr>,
        threads := threads (Shutdown NewClient) @ [Writer 0 WrInit, Reader (RdScan [])]\<rparr>) \<and>
   step demo (Shutdown NewClient) (Tick 5) =
     Some ((Shutdown NewClient)\<lparr>now := 5\<rparr>) \<and>
   shutdown (cl ((Shutdown NewClient)\<lparr>now := 5\<rparr>)) =
     lifecycle_flag (Tick 5) (shutdown (cl (Shutdown NewClient)))"
proof -
  let ?w = "Shutdown NewClient"
  have a: "panicked ?w = None" by (simp add: run_defs)
  have b: "step demo ?w (Tick 5) = Some (?w\<lparr>now := 5\<rparr>)" by (simp add: run_defs)
  from StartUp_always_launches [OF a, of demo "[]" 0] a b show ?thesis by blast
qed

text \<open>
  Claim C8 as stated fails: a second \<open>StartUp\<close> launches a second writer loop and a
  second reader loop, and a \<open>StartUp\<close> after \<open>Shutdown\<close> clears the flag again and
  runs a new writer loop on the new queue.
\<close>

theorem second_StartUp_counterexample:
  "map_option threads (exec demo NewClient [CallStartUp [] 0, CallStartUp [] 0]) =
     Some [Writer 0 WrInit, Reader (RdScan []), Writer 0 WrInit, Reader (RdScan [])] \<and>
   map_option (shutdown \<circ> cl) (exec demo NewClient [CallStartUp [] 0, CallShutdown]) =
     Some True \<and>
   map_option (shutdown \<circ> cl)
     (exec demo NewClient [CallStartUp [] 0, CallShutdown, CallStartUp [] 0]) = Some False \<and>
   map_option threads
     (exec demo NewClient [CallStartUp [] 0, Run 0, CallShutdown, Run 0, CallStartUp [] 0, Run 2]) =
     Some [Writer 0 WrDone, Reader (RdScan []), Writer 0 (WrRecv 1), Reader (RdScan [])]"
  by (simp add: run_defs)

section \<open>StartUp blocks its caller\<close>











section \<open>Registration\<close>








section \<open>Concurrent access to the registry\<close>

text \<open>
  Claim C9 on the code: the three paths to the map are not serialised. Two
  registrations race; a resolution races with a registration; the cancellation of a
  timed-out call races with a resolution.
\<close>

theorem concurrent_map_access:
  "map_option threads (exec demo NewClient two_calls_registering) =
     Some [Writer 0 (WrRecv 0), Reader (RdScan []),
           Caller (ReqRegister 1 ''ping''), Caller (ReqRegister 2 ''pong'')] \<and>
   data_race demo (the (exec demo NewClient two_calls_registering)) 2 3 \<and>
   data_race demo (the (exec demo NewClient reply_meets_call)) 3 4 \<and>
   data_race demo
     (the (exec demo NewClient (reply_meets_call @ [Tick 20000000000, Fire 2]))) 2 3"
  by (simp add: data_race_def two_calls_registering_def reply_meets_call_def run_defs)

lemma map_access_never_waits:
  assumes "panicked w = None" and "t < length (threads w)"
    and "pendingReq_access X (threads w ! t) \<noteq> None"
  shows "step X w (Run t) \<noteq> None"
  using assms
  by (cases "(X, threads w ! t)" rule: pendingReq_access.cases)
     (auto simp: step_def run_thread_def Let_def)

section \<open>Timeouts\<close>

lemma sint_overflow: "sint ((9223372037 :: 64 word) * 1000000000) = - 9223372036709551616"
  by simp

text \<open>
  Claim C5 on the code. With \<open>SetTimeout(9223372037)\<close> the product
  \<open>c.timeout * time.Second\<close> overflows int64 to a negative duration: the timer case
  is ready at once, and the call returns "Request timed out" while the clock still
  shows 0. With the default of 20 seconds the timer case is not ready at 0 nor one
  nanosecond before 20 seconds, and is ready at 20 seconds.
\<close>

theorem huge_timeout_fires_at_once:
  "map_option threads (exec demo NewClient (call_with_timeout 9223372037)) =
     Some [Writer 0 (WrWrite 0 \<lparr>req_id = 1, req_method = ''ping''\<rparr>), Reader (RdScan []),
           Caller (ReqSelect \<lparr>req_id = 1, req_method = ''ping''\<rparr> 0 (- 9223372036709551616))] \<and>
   map_option threads (exec demo NewClient (call_with_timeout 9223372037 @ [Fire 2, Run 2])) =
     Some [Writer 0 (WrWrite 0 \<lparr>req_id = 1, req_method = ''ping''\<rparr>), Reader (RdScan []),
           Caller (ReqReturn (Some RequestTimedOut))] \<and>
   map_option now (exec demo NewClient (call_with_timeout 9223372037 @ [Fire 2, Run 2])) =
     Some 0 \<and>
   exec demo NewClient (call_with_timeout 20 @ [Fire 2]) = None \<and>
   exec demo NewClient (call_with_timeout 20 @ [Tick 19999999999, Fire 2]) = None \<and>
   map_option threads
     (exec demo NewClient (call_with_timeout 20 @ [Tick 20000000000, Fire 2, Run 2])) =
     Some [Writer 0 (WrWrite 0 \<lparr>req_id = 1, req_method = ''ping''\<rparr>), Reader (RdScan []),
           Caller (ReqReturn (Some RequestTimedOut))]"
  by (simp add: call_with_timeout_def run_defs)

text \<open>
  Up to 9223372036 seconds the product does not overflow: the deadline is the
  configured number of seconds after the \<open>select\<close> was entered, the timer case is
  taken no earlier, and the return after it has removed the entry.
\<close>

lemma timer_in_range:
  assumes "uint secs \<le> 9223372036"
  shows "sint (secs * 1000000000 :: 64 word) = uint secs * 1000000000"
proof -
  have k: "uint (1000000000 :: 64 word) = 1000000000" by simp
  have ge: "0 \<le> uint secs * 1000000000" by simp
  have lt: "uint secs * 1000000000 < 2 ^ 63" using assms by simp
  have "uint secs * uint (1000000000 :: 64 word) < 2 ^ LENGTH(64)"
    using lt by simp
  then have "uint (secs * 1000000000) = uint secs * uint (1000000000 :: 64 word)"
    by (simp only: uint_mult_lem)
  then have a: "uint (secs * 1000000000) = uint secs * 1000000000"
    by (simp only: k)
  have "sint (secs * 1000000000) = signed_take_bit 63 (uint (secs * 1000000000))"
    by (simp add: sint_uint)
  also have "\<dots> = uint secs * 1000000000"
  proof -
    have z: "- (2 ^ 63) \<le> (0::int)" by simp
    from signed_take_bit_int_eq_self [OF order_trans [OF z ge] lt] a show ?thesis
      by simp
  qed
  finally show ?thesis .
qed

lemma timer_deadline:
  assumes "panicked w = None" and "t < length (threads w)"
    and "threads w ! t = Caller (ReqTimer req ch)"
    and "uint (timeout (cl w)) \<le> 9223372036"
  shows "step X w (Run t) =
           Some (set_thread w t
             (Caller (ReqSelect req ch (now w + uint (timeout (cl w)) * 1000000000))))"
  using assms(1-3) timer_in_range [OF assms(4)]
  by (simp add: step_def run_thread_def)

lemma timer_fires_late:
  assumes "step X w (Fire t) = Some w'"
    and "threads w ! t = Caller (ReqSelect req ch deadline)"
  shows "deadline \<le> now w \<and> w' = set_thread w t (Caller (ReqTimeout req))"
  using assms by (auto simp: step_def split: if_splits)

lemma timeout_return_removes:
  assumes "panicked w = None" and "t < length (threads w)"
    and "threads w ! t = Caller (ReqTimeout req)"
  shows "\<exists>w'. step X w (Run t) = Some w' \<and>
           threads w' ! t = Caller (ReqReturn (Some RequestTimedOut)) \<and>
           map_of (pendingReq (cl w')) (Val X (req_id req)) = None"
  using assms
  by (simp add: step_def run_thread_def set_thread_def cancel_def delete_conv')

section \<open>The order on the wire\<close>

lemma wire_invD:
  assumes "wire_inv X w" and "sole_writer w i" and "threads w ! i = Writer out pc"
  shows "outputs w out @ concat (map (wire X) (holding (Writer out pc))) =
           concat (map (wire X) (sent w))"
proof -
  from assms(1,2) have "outputs w (out_of (threads w ! i)) @
      concat (map (wire X) (holding (threads w ! i))) = concat (map (wire X) (sent w))"
    by (simp add: wire_inv_def)
  then show ?thesis by (simp add: assms(3))
qed

lemma wire_inv_frame:
  assumes inv: "wire_inv X w" and so: "sent w' = sent w" "outputs w' = outputs w"
    and le: "length (threads w) \<le> length (threads w')"
    and old: "\<And>j. j < length (threads w) \<Longrightarrow> is_writer (threads w ! j) \<Longrightarrow>
                threads w' ! j = threads w ! j"
    and new: "\<And>j. j < length (threads w') \<Longrightarrow> is_writer (threads w' ! j) \<Longrightarrow>
                j < length (threads w) \<and> is_writer (threads w ! j)"
  shows "wire_inv X w'"
  unfolding wire_inv_def
proof (intro conjI allI impI)
  fix i assume sw': "sole_writer w' i"
  then have i': "i < length (threads w')" and wi': "is_writer (threads w' ! i)"
    and uniq': "\<And>j. j < length (threads w') \<Longrightarrow> is_writer (threads w' ! j) \<Longrightarrow> j = i"
    unfolding sole_writer_def by blast+
  from new [OF i' wi'] have i: "i < length (threads w)" and wi: "is_writer (threads w ! i)"
    by simp_all
  have uniq: "j = i" if "j < length (threads w)" "is_writer (threads w ! j)" for j
  proof -
    from that le have "j < length (threads w')" by simp
    moreover from old [OF that] that(2) have "is_writer (threads w' ! j)" by simp
    ultimately show ?thesis by (rule uniq')
  qed
  have sw: "sole_writer w i"
    unfolding sole_writer_def using i wi uniq by blast
  from old [OF i wi] have same: "threads w' ! i = threads w ! i" .
  from inv sw have "outputs w (out_of (threads w ! i)) @
      concat (map (wire X) (holding (threads w ! i))) = concat (map (wire X) (sent w))"
    by (simp add: wire_inv_def)
  then show "outputs w' (out_of (threads w' ! i)) @
      concat (map (wire X) (holding (threads w' ! i))) = concat (map (wire X) (sent w'))"
    by (simp add: same so)
next
  assume none': "\<forall>j<length (threads w'). \<not> is_writer (threads w' ! j)"
  have none: "\<forall>j<length (threads w). \<not> is_writer (threads w ! j)"
  proof (intro allI impI notI)
    fix j assume j: "j < length (threads w)" and wj: "is_writer (threads w ! j)"
    from old [OF j wj] wj have "is_writer (threads w' ! j)" by simp
    moreover from j le have "j < length (threads w')" by simp
    ultimately show False using none' by blast
  qed
  with inv have "sent w = [] \<and> (\<forall>fd. outputs w fd = [])" by (simp add: wire_inv_def)
  then show "sent w' = []" and "\<And>fd. outputs w' fd = []" by (simp_all add: so)
qed

lemma wire_inv_other:
  assumes inv: "wire_inv X w" and so: "sent w' = sent w" "outputs w' = outputs w"
    and t: "t < length (threads w)" and nw: "\<not> is_writer (threads w ! t)"
    and x: "\<not> is_writer x" and th: "threads w' = (threads w)[t := x] @ vs"
    and vs: "\<forall>v\<in>set vs. \<not> is_writer v"
  shows "wire_inv X w'"
proof (rule wire_inv_frame [OF inv so])
  show "length (threads w) \<le> length (threads w')" by (simp add: th)
next
  fix j assume j: "j < length (threads w)" and wj: "is_writer (threads w ! j)"
  from wj nw have "j \<noteq> t" by auto
  with j show "threads w' ! j = threads w ! j" by (simp add: th nth_append)
next
  fix j assume j: "j < length (threads w')" and wj: "is_writer (threads w' ! j)"
  show "j < length (threads w) \<and> is_writer (threads w ! j)"
  proof (cases "j < length (threads w)")
    case True
    with wj have "is_writer ((threads w)[t := x] ! j)" by (simp add: th nth_append)
    with x t True show ?thesis by (cases "j = t") simp_all
  next
    case False
    with j have "j - length (threads w) < length vs" by (simp add: th)
    then have "vs ! (j - length (threads w)) \<in> set vs" by (rule nth_mem)
    moreover from False have "threads w' ! j = vs ! (j - length (threads w))"
      by (simp add: th nth_append)
    ultimately show ?thesis using vs wj by simp
  qed
qed

lemma wire_inv_unchanged:
  assumes inv: "wire_inv X w" and so: "sent w' = sent w" "outputs w' = outputs w"
    and th: "threads w' = threads w @ vs" and vs: "\<forall>v\<in>set vs. \<not> is_writer v"
  shows "wire_inv X w'"
proof (rule wire_inv_frame [OF inv so])
  show "length (threads w) \<le> length (threads w')" by (simp add: th)
next
  fix j assume "j < length (threads w)"
  then show "threads w' ! j = threads w ! j" by (simp add: th nth_append)
next
  fix j assume j: "j < length (threads w')" and wj: "is_writer (threads w' ! j)"
  show "j < length (threads w) \<and> is_writer (threads w ! j)"
  proof (cases "j < length (threads w)")
    case True
    with wj show ?thesis by (simp add: th nth_append)
  next
    case False
    with j have "j - length (threads w) < length vs" by (simp add: th)
    then have "vs ! (j - length (threads w)) \<in> set vs" by (rule nth_mem)
    moreover from False have "threads w' ! j = vs ! (j - length (threads w))"
      by (simp add: th nth_append)
    ultimately show ?thesis using vs wj by simp
  qed
qed

lemma Request_step_shape:
  assumes "Request_step X w t pc = Some w'"
  shows "sent w' = sent w \<and> outputs w' = outputs w \<and>
         (threads w' = threads w \<or> (\<exists>pc'. threads w' = (threads w)[t := Caller pc']))"
  using assms
  by (cases pc) (auto simp: set_thread_def panic_def NextId_def Let_def split: if_splits list.splits)

lemma processResponse_step_shape:
  assumes "processResponse_step X w t pc = Some w'"
  shows "sent w' = sent w \<and> outputs w' = outputs w \<and>
         (threads w' = threads w \<or> (\<exists>pc'. threads w' = (threads w)[t := Resolver pc']))"
  using assms
  by (cases pc)
     (auto simp: set_thread_def panic_def processResponse_def sendResponse_def
        split: if_splits sum.splits option.splits)

lemma readQueue_step_shape:
  assumes "readQueue_step w t pc = Some w'"
  shows "sent w' = sent w \<and> outputs w' = outputs w \<and>
         (threads w' = (threads w)[t := Reader RdDone] @ [] \<or>
          (\<exists>rest msg. threads w' = (threads w)[t := Reader (RdScan rest)] @ [Resolver (PrParse msg)]))"
  using assms
  by (cases "(w, t, pc)" rule: readQueue_step.cases)
     (auto simp: set_thread_def split: if_splits)

lemma Request_fire_shape:
  assumes "Request_fire w t th = Some w'"
  shows "sent w' = sent w \<and> outputs w' = outputs w \<and> \<not> is_writer th \<and>
         (\<exists>pc'. threads w' = (threads w)[t := Caller pc'])"
  using assms
  by (cases "(w, t, th)" rule: Request_fire.cases)
     (auto simp: set_thread_def split: if_splits)

lemma wire_inv_caller:
  assumes "wire_inv X w" and "t < length (threads w)" and "threads w ! t = Caller pc"
    and "Request_step X w t pc = Some w'"
  shows "wire_inv X w'"
proof -
  from Request_step_shape [OF assms(4)] have so: "sent w' = sent w" "outputs w' = outputs w"
    and th: "threads w' = threads w \<or> (\<exists>pc'. threads w' = (threads w)[t := Caller pc'])"
    by simp_all
  from th show ?thesis
  proof
    assume "threads w' = threads w"
    then show ?thesis by (intro wire_inv_unchanged [OF assms(1) so, of "[]"]) simp_all
  next
    assume "\<exists>pc'. threads w' = (threads w)[t := Caller pc']"
    then obtain pc' where "threads w' = (threads w)[t := Caller pc']" ..
    then show ?thesis
      using assms(3)
      by (intro wire_inv_other [OF assms(1) so assms(2), of "Caller pc'" "[]"]) simp_all
  qed
qed

lemma wire_inv_resolver:
  assumes "wire_inv X w" and "t < length (threads w)" and "threads w ! t = Resolver pc"
    and "processResponse_step X w t pc = Some w'"
  shows "wire_inv X w'"
proof -
  from processResponse_step_shape [OF assms(4)]
  have so: "sent w' = sent w" "outputs w' = outputs w"
    and th: "threads w' = threads w \<or> (\<exists>pc'. threads w' = (threads w)[t := Resolver pc'])"
    by simp_all
  from th show ?thesis
  proof
    assume "threads w' = threads w"
    then show ?thesis by (intro wire_inv_unchanged [OF assms(1) so, of "[]"]) simp_all
  next
    assume "\<exists>pc'. threads w' = (threads w)[t := Resolver pc']"
    then obtain pc' where "threads w' = (threads w)[t := Resolver pc']" ..
    then show ?thesis
      using assms(3)
      by (intro wire_inv_other [OF assms(1) so assms(2), of "Resolver pc'" "[]"]) simp_all
  qed
qed

lemma wire_inv_reader:
  assumes "wire_inv X w" and "t < length (threads w)" and "threads w ! t = Reader pc"
    and "readQueue_step w t pc = Some w'"
  shows "wire_inv X w'"
proof -
  from readQueue_step_shape [OF assms(4)]
  have so: "sent w' = sent w" "outputs w' = outputs w"
    and th: "threads w' = (threads w)[t := Reader RdDone] @ [] \<or>
          (\<exists>rest msg. threads w' = (threads w)[t := Reader (RdScan rest)] @ [Resolver (PrParse msg)])"
    by simp_all
  from th show ?thesis
  proof
    assume th1: "threads w' = (threads w)[t := Reader RdDone] @ []"
    show ?thesis
      using assms(3)
      by (intro wire_inv_other [OF assms(1) so assms(2) _ _ th1]) simp_all
  next
    assume "\<exists>rest msg. threads w' =
        (threads w)[t := Reader (RdScan rest)] @ [Resolver (PrParse msg)]"
    then obtain rest msg where th2: "threads w' =
        (threads w)[t := Reader (RdScan rest)] @ [Resolver (PrParse msg)]" by blast
    show ?thesis
      using assms(3)
      by (intro wire_inv_other [OF assms(1) so assms(2) _ _ th2]) simp_all
  qed
qed

lemma wire_inv_fire:
  assumes "wire_inv X w" and "t < length (threads w)"
    and "Request_fire w t (threads w ! t) = Some w'"
  shows "wire_inv X w'"
proof -
  from Request_fire_shape [OF assms(3)] obtain pc'
    where so: "sent w' = sent w" "outputs w' = outputs w"
      and nw: "\<not> is_writer (threads w ! t)"
      and th: "threads w' = (threads w)[t := Caller pc']"
    by blast
  show ?thesis
    by (intro wire_inv_other [OF assms(1) so assms(2) nw, of "Caller pc'" "[]"])
       (simp_all add: th)
qed

lemma sole_writer_update:
  assumes "t < length (threads w)" and "is_writer (threads w ! t)" and "is_writer x"
    and "length (threads w') = length (threads w)" and "threads w' ! t = x"
    and "\<And>j. j < length (threads w) \<Longrightarrow> j \<noteq> t \<Longrightarrow>
           is_writer (threads w' ! j) = is_writer (threads w ! j)"
  shows "sole_writer w' i \<longleftrightarrow> i = t \<and> sole_writer w t"
proof
  assume sw': "sole_writer w' i"
  then have uniq': "\<And>j. j < length (threads w') \<Longrightarrow> is_writer (threads w' ! j) \<Longrightarrow> j = i"
    unfolding sole_writer_def by blast
  from uniq' [of t] assms(1,3,4,5) have i: "i = t" by simp
  have "j = t" if "j < length (threads w)" "is_writer (threads w ! j)" for j
  proof (rule ccontr)
    assume ne: "j \<noteq> t"
    with assms(6) [OF that(1) ne] that(2) have "is_writer (threads w' ! j)" by simp
    with uniq' [of j] that(1) assms(4) i ne show False by simp
  qed
  then have "\<forall>j<length (threads w). is_writer (threads w ! j) \<longrightarrow> j = t" by blast
  with assms(1,2) i show "i = t \<and> sole_writer w t"
    unfolding sole_writer_def by blast
next
  assume r: "i = t \<and> sole_writer w t"
  then have uniq: "\<And>j. j < length (threads w) \<Longrightarrow> is_writer (threads w ! j) \<Longrightarrow> j = t"
    unfolding sole_writer_def by blast
  have "j = t" if "j < length (threads w')" "is_writer (threads w' ! j)" for j
  proof (rule ccontr)
    assume ne: "j \<noteq> t"
    from that(1) assms(4) have j: "j < length (threads w)" by simp
    from assms(6) [OF j ne] that(2) have "is_writer (threads w ! j)" by simp
    from uniq [OF j this] ne show False by simp
  qed
  then have "\<forall>j<length (threads w'). is_writer (threads w' ! j) \<longrightarrow> j = t" by blast
  moreover have "t < length (threads w')" "is_writer (threads w' ! t)"
    using assms(1,3,4,5) by simp_all
  ultimately show "sole_writer w' i"
    unfolding sole_writer_def using r by blast
qed

lemma wire_inv_writer_moves:
  assumes inv: "wire_inv X w" and t: "t < length (threads w)"
    and tw: "threads w ! t = Writer out pc"
    and len: "length (threads w') = length (threads w)"
    and tw': "threads w' ! t = Writer out pc'"
    and oth: "\<And>j. j < length (threads w) \<Longrightarrow> j \<noteq> t \<Longrightarrow>
           is_writer (threads w' ! j) = is_writer (threads w ! j)"
    and eq: "outputs w out @ concat (map (wire X) (holding (Writer out pc))) =
               concat (map (wire X) (sent w)) \<Longrightarrow>
             outputs w' out @ concat (map (wire X) (holding (Writer out pc'))) =
               concat (map (wire X) (sent w'))"
  shows "wire_inv X w'"
  unfolding wire_inv_def
proof (intro conjI allI impI)
  fix i assume "sole_writer w' i"
  with sole_writer_update [of t w "Writer out pc'" w' i, OF t _ _ len tw' oth] tw
  have i: "i = t" and sw: "sole_writer w t" by simp_all
  from eq [OF wire_invD [OF inv sw tw]] i tw'
  show "outputs w' (out_of (threads w' ! i)) @
          concat (map (wire X) (holding (threads w' ! i))) = concat (map (wire X) (sent w'))"
    by simp
next
  assume "\<forall>j<length (threads w'). \<not> is_writer (threads w' ! j)"
  with t len tw' show "sent w' = []" by (auto dest!: spec [of _ t])
next
  fix fd assume "\<forall>j<length (threads w'). \<not> is_writer (threads w' ! j)"
  with t len tw' show "outputs w' fd = []" by (auto dest!: spec [of _ t])
qed

lemma setupWriteQueue_step_shape:
  assumes "setupWriteQueue_step X w t out pc = Some w'"
  shows "\<exists>pc'. threads w' = (threads w)[t := Writer out pc'] \<and> sent w' = sent w \<and>
           outputs w' out @ concat (map (wire X) (holding (Writer out pc'))) =
           outputs w out @ concat (map (wire X) (holding (Writer out pc)))"
  using assms
  by (cases pc) (auto simp: set_thread_def wire_def split: if_splits sum.splits)

lemma wire_inv_writer:
  assumes "wire_inv X w" and "t < length (threads w)" and "threads w ! t = Writer out pc"
    and "setupWriteQueue_step X w t out pc = Some w'"
  shows "wire_inv X w'"
proof -
  from setupWriteQueue_step_shape [OF assms(4)] obtain pc'
    where th: "threads w' = (threads w)[t := Writer out pc']" and so: "sent w' = sent w"
      and ou: "outputs w' out @ concat (map (wire X) (holding (Writer out pc'))) =
               outputs w out @ concat (map (wire X) (holding (Writer out pc)))"
    by blast
  show ?thesis
  proof (rule wire_inv_writer_moves [OF assms(1-3), of w' pc'])
    show "length (threads w') = length (threads w)" by (simp add: th)
    show "threads w' ! t = Writer out pc'" using assms(2) by (simp add: th)
    show "is_writer (threads w' ! j) = is_writer (threads w ! j)"
      if "j < length (threads w)" "j \<noteq> t" for j
      using that by (simp add: th)
    show "outputs w' out @ concat (map (wire X) (holding (Writer out pc'))) =
            concat (map (wire X) (sent w'))"
      if "outputs w out @ concat (map (wire X) (holding (Writer out pc))) =
            concat (map (wire X) (sent w))"
      using that ou so by simp
  qed
qed

lemma handoff_shape:
  assumes "handoff w c wt = Some w'"
  obtains q req ch out where "c < length (threads w)" and "wt < length (threads w)"
    and "threads w ! c = Caller (ReqSend q req ch)"
    and "threads w ! wt = Writer out (WrRecv q)"
    and "w' = w\<lparr>threads := (threads w)[c := Caller (ReqTimer req ch),
                                       wt := Writer out (WrWrite q req)],
                sent := sent w @ [req]\<rparr>"
  using assms
  by (auto simp: handoff_def split: if_splits thread.splits req_pc.splits wr_pc.splits)

lemma wire_inv_handoff:
  assumes "wire_inv X w" and "handoff w c wt = Some w'"
  shows "wire_inv X w'"
proof -
  from assms(2) obtain q req ch out where c: "c < length (threads w)"
    and wt: "wt < length (threads w)"
    and tc: "threads w ! c = Caller (ReqSend q req ch)"
    and tw: "threads w ! wt = Writer out (WrRecv q)"
    and w': "w' = w\<lparr>threads := (threads w)[c := Caller (ReqTimer req ch),
                                              wt := Writer out (WrWrite q req)],
                     sent := sent w @ [req]\<rparr>"
    by (rule handoff_shape)
  show ?thesis
  proof (rule wire_inv_writer_moves [OF assms(1) wt tw, of w' "WrWrite q req"])
    show "length (threads w') = length (threads w)" by (simp add: w')
    show "threads w' ! wt = Writer out (WrWrite q req)" using wt by (simp add: w')
    show "is_writer (threads w' ! j) = is_writer (threads w ! j)"
      if "j < length (threads w)" "j \<noteq> wt" for j
      using that tc c by (cases "j = c") (simp_all add: w')
    show "outputs w' out @ concat (map (wire X) (holding (Writer out (WrWrite q req)))) =
            concat (map (wire X) (sent w'))"
      if "outputs w out @ concat (map (wire X) (holding (Writer out (WrRecv q)))) =
            concat (map (wire X) (sent w))"
      using that by (simp add: w')
  qed
qed

lemma wire_inv_StartUp:
  assumes "wire_inv X w"
  shows "wire_inv X (StartUp w inp out)"
  unfolding wire_inv_def
proof (intro conjI allI impI)
  let ?w' = "StartUp w inp out"
  let ?n = "length (threads w)"
  have th: "threads ?w' = threads w @ [Writer out WrInit, Reader (RdScan inp)]"
    and so: "sent ?w' = sent w" "outputs ?w' = outputs w"
    by (simp_all add: StartUp_def)
  have new: "?n < length (threads ?w')" "threads ?w' ! ?n = Writer out WrInit"
    by (simp_all add: th nth_append)
  {
    fix i assume sw: "sole_writer ?w' i"
    then have uniq: "\<And>j. j < length (threads ?w') \<Longrightarrow> is_writer (threads ?w' ! j) \<Longrightarrow> j = i"
      unfolding sole_writer_def by blast
    from uniq [of ?n] new have i: "i = ?n" by simp
    have "\<forall>j<?n. \<not> is_writer (threads w ! j)"
    proof (intro allI impI notI)
      fix j assume j: "j < ?n" and wj: "is_writer (threads w ! j)"
      from j have "threads ?w' ! j = threads w ! j" by (simp add: th nth_append)
      with uniq [of j] j wj i show False by (simp add: th)
    qed
    with assms have "sent w = []" "outputs w out = []"
      unfolding wire_inv_def by auto
    with i new so
    show "outputs ?w' (out_of (threads ?w' ! i)) @
            concat (map (wire X) (holding (threads ?w' ! i))) = concat (map (wire X) (sent ?w'))"
      by simp
  }
  {
    assume "\<forall>j<length (threads ?w'). \<not> is_writer (threads ?w' ! j)"
    with new show "sent ?w' = []" by (auto dest!: spec [of _ ?n])
  }
  {
    fix fd assume "\<forall>j<length (threads ?w'). \<not> is_writer (threads ?w' ! j)"
    with new show "outputs ?w' fd = []" by (auto dest!: spec [of _ ?n])
  }
qed

lemma wire_inv_Shutdown:
  assumes "wire_inv X w"
  shows "wire_inv X (Shutdown w)"
  by (rule wire_inv_unchanged [OF assms, of _ "[]"])
     (simp_all add: Shutdown_def Let_def panic_def split: option.splits)

lemma wire_inv_step:
  assumes "wire_inv X w" and "step X w e = Some w'"
  shows "wire_inv X w'"
proof (cases e)
  case (CallRequest m)
  with assms(2) have w': "w' = w\<lparr>threads := threads w @ [Caller (ReqCheck m)]\<rparr>"
    by (auto simp: step_def split: if_splits)
  show ?thesis
    by (rule wire_inv_unchanged [OF assms(1), of _ "[Caller (ReqCheck m)]"])
       (simp_all add: w')
next
  case (CallStartUp inp out)
  with assms wire_inv_StartUp show ?thesis by (auto simp: step_def split: if_splits)
next
  case CallShutdown
  with assms wire_inv_Shutdown show ?thesis by (auto simp: step_def split: if_splits)
next
  case (CallSetTimeout secs)
  with assms(2) have "w' = w\<lparr>cl := SetTimeout (cl w) secs\<rparr>"
    by (auto simp: step_def split: if_splits)
  then show ?thesis by (intro wire_inv_unchanged [OF assms(1), of _ "[]"]) simp_all
next
  case (Tick n)
  with assms(2) have "w' = w\<lparr>now := now w + int n\<rparr>"
    by (auto simp: step_def split: if_splits)
  then show ?thesis by (intro wire_inv_unchanged [OF assms(1), of _ "[]"]) simp_all
next
  case (Run t)
  with assms(2) have t: "t < length (threads w)" and r: "run_thread X w t = Some w'"
    by (auto simp: step_def run_thread_def split: if_splits)
  show ?thesis
  proof (cases "threads w ! t")
    case (Caller pc)
    with r t wire_inv_caller [OF assms(1) t Caller] show ?thesis by (simp add: run_thread_def)
  next
    case (Writer out pc)
    with r t wire_inv_writer [OF assms(1) t Writer] show ?thesis by (simp add: run_thread_def)
  next
    case (Reader pc)
    with r t wire_inv_reader [OF assms(1) t Reader] show ?thesis by (simp add: run_thread_def)
  next
    case (Resolver pc)
    with r t wire_inv_resolver [OF assms(1) t Resolver] show ?thesis by (simp add: run_thread_def)
  qed
next
  case (Fire t)
  with assms wire_inv_fire [of X w t w'] show ?thesis by (auto simp: step_def split: if_splits)
next
  case (Handoff c wt)
  with assms wire_inv_handoff [of X w c wt w'] show ?thesis
    by (auto simp: step_def split: if_splits)
qed

lemma wire_inv_exec:
  "exec X w evs = Some w' \<Longrightarrow> wire_inv X w \<Longrightarrow> wire_inv X w'"
proof (induction evs arbitrary: w)
  case Nil
  then show ?case by simp
next
  case (Cons e es)
  then show ?case by (auto split: option.splits dest: wire_inv_step)
qed

lemma wire_inv_NewClient: "wire_inv X NewClient"
  by (simp add: wire_inv_def sole_writer_def NewClient_def)

lemma filter_single_nth:
  assumes "filter P xs = [a]"
  shows "\<exists>i<length xs. xs ! i = a \<and> P a \<and> (\<forall>j<length xs. P (xs ! j) \<longrightarrow> j = i)"
proof -
  from assms obtain us vs where xs: "xs = us @ a # vs" and us: "\<forall>u\<in>set us. \<not> P u"
    and a: "P a" and vs: "filter P vs = []"
    by (auto simp: filter_eq_Cons_iff)
  from vs have vs': "\<forall>v\<in>set vs. \<not> P v" by (simp add: filter_empty_conv)
  have "\<forall>j<length xs. P (xs ! j) \<longrightarrow> j = length us"
  proof (intro allI impI)
    fix j assume j: "j < length xs" and p: "P (xs ! j)"
    show "j = length us"
    proof (rule ccontr)
      assume ne: "j \<noteq> length us"
      show False
      proof (cases "j < length us")
        case True
        then have "xs ! j \<in> set us" by (simp add: xs nth_append)
        with us p show False by blast
      next
        case False
        with ne have gt: "length us < j" by simp
        then have "xs ! j = vs ! (j - Suc (length us))"
          by (simp add: xs nth_append nth_Cons')
        moreover have "j - Suc (length us) < length vs" using j gt by (simp add: xs)
        ultimately have "xs ! j \<in> set vs" by simp
        with vs' p show False by blast
      qed
    qed
  qed
  moreover have "length us < length xs" "xs ! length us = a" by (simp_all add: xs)
  ultimately show ?thesis using a by blast
qed

text \<open>
  Claim C4. Take any run of a new client in which \<open>StartUp\<close> was called once, so
  that there is one writer loop, writing to \<open>out\<close>. In every world of the run the
  bytes on \<open>out\<close>, followed by the encoding of the envelope the loop holds at that
  moment, are the concatenation of the encodings of the envelopes in \<open>sent\<close>, that is
  in the order in which their sends on the queue completed. So the envelope of a call
  A whose send completed before that of B lies whole before every byte of B, whatever
  else the run contains: replies in any order, timeouts, \<open>Shutdown\<close>.
\<close>

theorem wire_order_is_submission_order:
  assumes "exec X NewClient evs = Some w"
    and "filter is_writer (threads w) = [Writer out pc]"
  shows "outputs w out @ concat (map (wire X) (holding (Writer out pc))) =
           concat (map (wire X) (sent w))"
proof -
  from filter_single_nth [OF assms(2)] obtain i where "i < length (threads w)"
    "threads w ! i = Writer out pc"
    "\<forall>j<length (threads w). is_writer (threads w ! j) \<longrightarrow> j = i" by blast
  then have sw: "sole_writer w i" and ti: "threads w ! i = Writer out pc"
    unfolding sole_writer_def by (metis is_writer.simps(1), blast)
  from wire_inv_exec [OF assms(1) wire_inv_NewClient] have "wire_inv X w" .
  from wire_invD [OF this sw ti] show ?thesis .
qed

theorem wire_order_is_submission_order_witness:
  "exec demo NewClient two_calls_written = Some (the (exec demo NewClient two_calls_written)) \<and>
   filter is_writer (threads (the (exec demo NewClient two_calls_written))) =
     [Writer 0 (WrRecv 0)] \<and>
   sent (the (exec demo NewClient two_calls_written)) =
     [\<lparr>req_id = 1, req_method = ''ping''\<rparr>, \<lparr>req_id = 2, req_method = ''pong''\<rparr>] \<and>
   outputs (the (exec demo NewClient two_calls_written)) 0 =
     ''1:ping'' @ twoNewlines @ ''2:pong'' @ twoNewlines \<and>
   outputs (the (exec demo NewClient two_calls_written)) 0 @
       concat (map (wire demo) (holding (Writer 0 (WrRecv 0)))) =
     concat (map (wire demo) (sent (the (exec demo NewClient two_calls_written))))"
proof -
  let ?w = "the (exec demo NewClient two_calls_written)"
  have a: "exec demo NewClient two_calls_written = Some ?w"
    by (simp add: two_calls_written_def run_defs)
  have b: "filter is_writer (threads ?w) = [Writer 0 (WrRecv 0)]"
    by (simp add: two_calls_written_def run_defs)
  have c: "sent ?w = [\<lparr>req_id = 1, req_method = ''ping''\<rparr>, \<lparr>req_id = 2, req_method = ''pong''\<rparr>]"
    by (simp add: two_calls_written_def run_defs)
  have d: "outputs ?w 0 = ''1:ping'' @ twoNewlines @ ''2:pong'' @ twoNewlines"
    by (simp add: two_calls_written_def run_defs)
  from wire_order_is_submission_order [OF a b] a b c d show ?thesis by blast
qed

end
